theory Spec2Isabelle
  imports Main "HOL-Library.Word"
begin

section \<open>The locks of sdk/include/locks.hh\<close>

text \<open>
  The header defines three lock classes (\<open>FlagLock\<close>, \<open>TicketLock\<close>, \<open>NoLock\<close>) and the
  RAII wrapper \<open>LockGuard\<close>. Every member function is embedded as the function one
  thread executes. The lock words are atomics shared with other threads, so each
  function takes a schedule: what the other threads did to the word between two atomic
  operations of this thread, and whether a blocked wait is ever woken. A function
  returns \<open>None\<close> when the thread is still inside the call at the end of the schedule
  (it is blocked for good, or the observation ended first). Next to its result every
  function returns the list of atomic operations and futex calls it issued, in order.

  \<open>LockDebug\<close> is \<open>ConditionalDebug<DebugLocks, ...>\<close> and \<open>DebugLocks\<close> is \<open>false\<close>
  unless the build defines \<open>DEBUG_LOCKS\<close> (lines 11 to 18): the assertions and log
  calls of the header compile to nothing and have no counterpart below.
\<close>

subsection \<open>The futex word, the timeout and the environment\<close>

text \<open>The \<open>Flag\<close> enumeration of \<open>FlagLock\<close> (lines 42 to 50).\<close>

datatype Flag = Unlocked | Locked | LockedWithWaiters

text \<open>\<open>class FlagLock\<close>: its only member is the lock word (line 53).\<close>

record FlagLock =
  flag :: Flag

text \<open>
  Modelled from the spec: \<open>Timeout\<close> is declared in a header that is not part of the
  sources at hand. The spec describes it as a mutable cursor with a \<open>remaining\<close>
  quantity that is comparable to zero (zero or negative: do not block) and a
  distinguished unlimited construction value. The unlimited value itself
  (\<open>UnlimitedTimeout\<close>) is a parameter \<open>U\<close> of every function that needs it.
\<close>

record Timeout =
  remaining :: int

text \<open>
  The operations a thread issues on the word of a \<open>FlagLock\<close>, as they appear in the
  trace: a compare-and-set with its expected value, its desired value and its success,
  an exchange with the value it read and the value it stored, a timed wait with its
  expected value, and a wake of all waiters.
\<close>

datatype event =
  CAS Flag Flag bool
| Xchg Flag Flag
| FutexWait Flag
| NotifyAll

text \<open>
  What other threads do to a shared object between two atomic operations of this
  thread: nothing, or they leave it holding a new value.
\<close>

definition interfere :: "'a option \<Rightarrow> 'a \<Rightarrow> 'a" where
  "interfere w l = (case w of None \<Rightarrow> l | Some l' \<Rightarrow> l')"

text \<open>
  The environment of one iteration of the retry loop of \<open>FlagLock::try_lock\<close>: the
  writes of other threads that land before the upgrade compare-and-set, before the wait
  and before the acquiring compare-and-set, and, should the wait block, the number of
  ticks after which a wake arrives (\<open>None\<close>: no wake ever arrives).
\<close>

record env =
  before_upgrade :: "FlagLock option"
  before_wait :: "FlagLock option"
  woken :: "nat option"
  before_acquire :: "FlagLock option"

text \<open>
  Modelled from the spec: \<open>cheriot::atomic\<close> comes from \<open>cheriot-atomic.hh\<close>, which is not
  part of the sources at hand. \<open>compare_exchange_strong(old, desired)\<close> is the atomic
  compare-and-set of the spec: when the word holds \<open>old\<close> it stores \<open>desired\<close> and
  succeeds; otherwise it fails, leaves the word alone and writes the value it saw into
  \<open>old\<close>. The result is the success, the new \<open>old\<close> and the lock.
\<close>

definition compare_exchange_strong :: "Flag \<Rightarrow> Flag \<Rightarrow> FlagLock \<Rightarrow> bool \<times> Flag \<times> FlagLock" where
  "compare_exchange_strong old desired l =
     (if flag l = old then (True, old, l\<lparr>flag := desired\<rparr>) else (False, flag l, l))"

text \<open>
  Modelled from the spec: \<open>exchange(v)\<close> of the absent \<open>cheriot-atomic.hh\<close> atomically
  swaps the word to \<open>v\<close> and reads the previous value.
\<close>

definition exchange :: "Flag \<Rightarrow> FlagLock \<Rightarrow> Flag \<times> FlagLock" where
  "exchange v l = (flag l, l\<lparr>flag := v\<rparr>)"

text \<open>
  Modelled from the spec: the word-wait primitive \<open>wait(location, timeout, expected)\<close> is
  a kernel service outside the sources at hand. It blocks if and only if the word holds
  the expected value at the moment of the call (and the budget allows blocking), until
  a wake arrives or the remaining budget reaches zero; it decrements the cursor by the
  time consumed; a cursor holding the unlimited value \<open>U\<close> never reports exhaustion.
  \<open>wake\<close> is the number of ticks after which a wake arrives, if one ever does. The
  result is the cursor on return, or \<open>None\<close> when the call never returns.
\<close>

definition futex_wait :: "int \<Rightarrow> nat option \<Rightarrow> Timeout \<Rightarrow> 'v \<Rightarrow> 'v \<Rightarrow> Timeout option" where
  "futex_wait U wake t expected actual =
     (if actual \<noteq> expected \<or> remaining t \<le> 0 then Some t
      else if remaining t = U then (case wake of None \<Rightarrow> None | Some n \<Rightarrow> Some t)
      else Some (t\<lparr>remaining :=
                   (case wake of None \<Rightarrow> 0 | Some n \<Rightarrow> max 0 (remaining t - int n))\<rparr>))"

subsection \<open>FlagLock\<close>

text \<open>
  Lines 69 to 75 of the loop body: unless the value last seen is already
  \<open>LockedWithWaiters\<close>, try to move the word from that value to \<open>LockedWithWaiters\<close>;
  a failure refreshes \<open>old\<close> and is otherwise ignored.
\<close>

definition upgrade_step :: "env \<Rightarrow> Flag \<Rightarrow> FlagLock \<Rightarrow> event list \<Rightarrow> Flag \<times> FlagLock \<times> event list" where
  "upgrade_step e old l tr =
     (if old \<noteq> LockedWithWaiters then
        (case compare_exchange_strong old LockedWithWaiters (interfere (before_upgrade e) l) of
           (ok, old', l') \<Rightarrow> (old', l', tr @ [CAS old LockedWithWaiters ok]))
      else (old, l, tr))"

text \<open>
  Lines 76 to 80: unless the value last seen is \<open>Unlocked\<close>, wait on the word with the
  timeout cursor and that value as the expected one.
\<close>

definition wait_step :: "int \<Rightarrow> env \<Rightarrow> Flag \<Rightarrow> Timeout \<Rightarrow> FlagLock \<Rightarrow> event list \<Rightarrow> (Timeout \<times> FlagLock \<times> event list) option" where
  "wait_step U e old t l tr =
     (if old \<noteq> Unlocked then
        (let l' = interfere (before_wait e) l in
         case futex_wait U (woken e) t old (flag l') of
           None \<Rightarrow> None
         | Some t' \<Rightarrow> Some (t', l', tr @ [FutexWait old]))
      else Some (t, l, tr))"

text \<open>
  The \<open>while (timeout->remaining > 0)\<close> loop of \<open>try_lock\<close> (lines 67 to 89), one
  element of the schedule per iteration. \<open>old\<close> is the local variable of that name.
\<close>

fun try_lock_loop :: "int \<Rightarrow> env list \<Rightarrow> Flag \<Rightarrow> Timeout \<Rightarrow> FlagLock \<Rightarrow> event list \<Rightarrow> (bool \<times> Timeout \<times> FlagLock \<times> event list) option" where
  "try_lock_loop U [] old t l tr =
     (if 0 < remaining t then None else Some (False, t, l, tr))"
| "try_lock_loop U (e # sched) old t l tr =
     (if 0 < remaining t then
        (case upgrade_step e old l tr of
           (old1, l1, tr1) \<Rightarrow>
             (case wait_step U e old1 t l1 tr1 of
                None \<Rightarrow> None
              | Some (t2, l2, tr2) \<Rightarrow>
                  (case compare_exchange_strong Unlocked LockedWithWaiters
                          (interfere (before_acquire e) l2) of
                     (ok, old3, l3) \<Rightarrow>
                       if ok then Some (True, t2, l3, tr2 @ [CAS Unlocked LockedWithWaiters True])
                       else try_lock_loop U sched old3 t2 l3
                              (tr2 @ [CAS Unlocked LockedWithWaiters False]))))
      else Some (False, t, l, tr))"

text \<open>
  \<open>bool try_lock(Timeout *timeout)\<close> (lines 60 to 90): the fast path, then the loop.
  The result is the returned boolean, the cursor, the lock and the trace.
\<close>

definition FlagLock_try_lock :: "int \<Rightarrow> env list \<Rightarrow> Timeout \<Rightarrow> FlagLock \<Rightarrow> (bool \<times> Timeout \<times> FlagLock \<times> event list) option" where
  "FlagLock_try_lock U sched t l =
     (case compare_exchange_strong Unlocked Locked l of
        (ok, old, l') \<Rightarrow>
          if ok then Some (True, t, l', [CAS Unlocked Locked True])
          else try_lock_loop U sched old t l' [CAS Unlocked Locked False])"

text \<open>
  \<open>bool try_lock()\<close> (lines 95 to 99): \<open>Timeout t{0}\<close>, then \<open>try_lock(&t)\<close>. The local
  cursor dies with the call.
\<close>

definition FlagLock_try_lock0 :: "int \<Rightarrow> env list \<Rightarrow> FlagLock \<Rightarrow> (bool \<times> FlagLock \<times> event list) option" where
  "FlagLock_try_lock0 U sched l =
     (case FlagLock_try_lock U sched \<lparr>remaining = 0\<rparr> l of
        None \<Rightarrow> None
      | Some (r, t', l', tr) \<Rightarrow> Some (r, l', tr))"

text \<open>
  \<open>void lock()\<close> (lines 104 to 108): \<open>Timeout t{UnlimitedTimeout}\<close>, then
  \<open>try_lock(&t)\<close>, whose result is discarded.
\<close>

definition FlagLock_lock :: "int \<Rightarrow> env list \<Rightarrow> FlagLock \<Rightarrow> (FlagLock \<times> event list) option" where
  "FlagLock_lock U sched l =
     (case FlagLock_try_lock U sched \<lparr>remaining = U\<rparr> l of
        None \<Rightarrow> None
      | Some (r, t', l', tr) \<Rightarrow> Some (l', tr))"

text \<open>\<open>void unlock()\<close> (lines 115 to 125).\<close>

definition FlagLock_unlock :: "FlagLock \<Rightarrow> FlagLock \<times> event list" where
  "FlagLock_unlock l =
     (case exchange Unlocked l of
        (old, l') \<Rightarrow>
          if old = LockedWithWaiters then (l', [Xchg old Unlocked, NotifyAll])
          else (l', [Xchg old Unlocked]))"

subsection \<open>TicketLock\<close>

text \<open>
  \<open>class TicketLock\<close> (lines 135 to 178): the ticket being served and the next ticket a
  caller can take, both \<open>uint32_t\<close>. The member \<open>next\<close> is named \<open>next_ticket\<close> here.
\<close>

record TicketLock =
  current :: "32 word"
  next_ticket :: "32 word"

text \<open>
  The header gives neither counter an initialiser (lines 140 and 145). A lock whose
  counters start at zero, as a zero-initialised object does:
\<close>

definition TicketLock_init :: TicketLock where
  "TicketLock_init = \<lparr>current = 0, next_ticket = 0\<rparr>"

text \<open>
  The operations a thread issues on the two counters: the fetch-and-increment of
  \<open>next\<close> with the value fetched, a load of \<open>current\<close> with the value read, an untimed
  wait on \<open>current\<close> with its expected value, the increment of \<open>current\<close> with the new
  value, a load of \<open>next\<close> with the value read, and a wake of all waiters on \<open>current\<close>.
\<close>

datatype ticket_event =
  FetchAddNext "32 word"
| LoadCurrent "32 word"
| WaitCurrent "32 word"
| AddFetchCurrent "32 word"
| LoadNext "32 word"
| NotifyAllCurrent

text \<open>
  The environment of one iteration of the loop of \<open>TicketLock::lock\<close>: the writes of
  other threads that land before the load of \<open>current\<close> and before the wait, and
  whether a wake ever arrives should the wait block.
\<close>

record ticket_env =
  before_load :: "TicketLock option"
  before_block :: "TicketLock option"
  wake_arrives :: bool

text \<open>
  \<open>next++\<close> (line 153). Modelled from the spec: the operators of \<open>cheriot::atomic\<close> are
  declared in the absent \<open>cheriot-atomic.hh\<close>; the post-increment atomically fetches the
  value and increments the counter, modulo 2^32 on a \<open>uint32_t\<close>. The result is the value
  fetched and the lock.
\<close>

definition fetch_add_next :: "TicketLock \<Rightarrow> 32 word \<times> TicketLock" where
  "fetch_add_next l = (next_ticket l, l\<lparr>next_ticket := next_ticket l + 1\<rparr>)"

text \<open>
  \<open>++current\<close> (line 172). Modelled from the spec: the pre-increment of the absent
  \<open>cheriot-atomic.hh\<close> atomically increments the counter, modulo 2^32, and reads the new
  value. The result is the new value and the lock.
\<close>

definition add_fetch_current :: "TicketLock \<Rightarrow> 32 word \<times> TicketLock" where
  "add_fetch_current l = (current l + 1, l\<lparr>current := current l + 1\<rparr>)"

text \<open>
  Modelled from the spec: the word-wait primitive with no timeout, \<open>wait(expected)\<close> of
  the absent \<open>cheriot-atomic.hh\<close>. It blocks if and only if the word holds the expected
  value at the moment of the call, until a wake arrives. The result tells whether the
  call returns.
\<close>

definition futex_wait_forever :: "bool \<Rightarrow> 'v \<Rightarrow> 'v \<Rightarrow> bool" where
  "futex_wait_forever wake expected actual = (actual \<noteq> expected \<or> wake)"

text \<open>
  The \<open>do ... while (true)\<close> loop of \<open>lock\<close> (lines 154 to 162), one element of the
  schedule per iteration.
\<close>

fun lock_loop :: "32 word \<Rightarrow> ticket_env list \<Rightarrow> TicketLock \<Rightarrow> ticket_event list \<Rightarrow> (TicketLock \<times> ticket_event list) option" where
  "lock_loop ticket [] l tr = None"
| "lock_loop ticket (e # sched) l tr =
     (let l1 = interfere (before_load e) l;
          currentSnapshot = current l1
      in if currentSnapshot = ticket then Some (l1, tr @ [LoadCurrent currentSnapshot])
         else
           (let l2 = interfere (before_block e) l1
            in if futex_wait_forever (wake_arrives e) currentSnapshot (current l2)
               then lock_loop ticket sched l2
                      (tr @ [LoadCurrent currentSnapshot, WaitCurrent currentSnapshot])
               else None))"

text \<open>\<open>void lock()\<close> (lines 151 to 163).\<close>

definition TicketLock_lock :: "ticket_env list \<Rightarrow> TicketLock \<Rightarrow> (TicketLock \<times> ticket_event list) option" where
  "TicketLock_lock sched l =
     (case fetch_add_next l of
        (ticket, l') \<Rightarrow> lock_loop ticket sched l' [FetchAddNext ticket])"

text \<open>
  \<open>void unlock()\<close> (lines 170 to 177). \<open>w\<close> is what other threads write between the
  increment of \<open>current\<close> and the load of \<open>next\<close>.
\<close>

definition TicketLock_unlock :: "TicketLock option \<Rightarrow> TicketLock \<Rightarrow> TicketLock \<times> ticket_event list" where
  "TicketLock_unlock w l =
     (case add_fetch_current l of
        (currentSnapshot, l1) \<Rightarrow>
          (let l2 = interfere w l1
           in if next_ticket l2 > currentSnapshot
              then (l2, [AddFetchCurrent currentSnapshot, LoadNext (next_ticket l2), NotifyAllCurrent])
              else (l2, [AddFetchCurrent currentSnapshot, LoadNext (next_ticket l2)])))"

text \<open>
  The counters after a sequence of calls, taken in the order in which their atomic
  updates hit the counters. A call of \<open>lock()\<close> updates the counters by its \<open>next++\<close>
  alone (the loop that follows only reads), a call of \<open>unlock()\<close> by its \<open>++current\<close>.
\<close>

datatype ticket_call = LockCall | UnlockCall

fun apply_call :: "ticket_call \<Rightarrow> TicketLock \<Rightarrow> TicketLock" where
  "apply_call LockCall l = snd (fetch_add_next l)"
| "apply_call UnlockCall l = fst (TicketLock_unlock None l)"

fun counters_after :: "ticket_call list \<Rightarrow> TicketLock \<Rightarrow> TicketLock" where
  "counters_after [] l = l"
| "counters_after (c # cs) l = counters_after cs (apply_call c l)"

text \<open>
  A sequence of calls in which every \<open>unlock()\<close> releases a ticket taken before it:
  \<open>held_ok n cs\<close> holds when, with \<open>n\<close> tickets outstanding, no prefix of \<open>cs\<close> has more
  \<open>unlock()\<close> calls than \<open>n\<close> plus its \<open>lock()\<close> calls.
\<close>

fun held_ok :: "nat \<Rightarrow> ticket_call list \<Rightarrow> bool" where
  "held_ok n [] = True"
| "held_ok n (LockCall # cs) = held_ok (Suc n) cs"
| "held_ok n (UnlockCall # cs) = (0 < n \<and> held_ok (n - 1) cs)"

definition lock_calls :: "ticket_call list \<Rightarrow> nat" where
  "lock_calls cs = length (filter (\<lambda>c. c = LockCall) cs)"

text \<open>
  One thread alone on the lock: no other thread writes the counters and no wake ever
  arrives. \<open>alone_rounds n l\<close> is the lock after that thread has run \<open>lock()\<close> followed
  by \<open>unlock()\<close> \<open>n\<close> times, or \<open>None\<close> when one of its \<open>lock()\<close> calls does not return.
\<close>

definition alone :: ticket_env where
  "alone = \<lparr>before_load = None, before_block = None, wake_arrives = False\<rparr>"

fun alone_rounds :: "nat \<Rightarrow> TicketLock \<Rightarrow> TicketLock option" where
  "alone_rounds 0 l = Some l"
| "alone_rounds (Suc n) l =
     (case TicketLock_lock [alone] l of
        None \<Rightarrow> None
      | Some (l1, tr) \<Rightarrow> alone_rounds n (fst (TicketLock_unlock None l1)))"

subsection \<open>NoLock\<close>

text \<open>
  \<open>class NoLock\<close> (lines 185 to 213) has no member: an object has one value. Its
  functions issue no operation at all, so their traces are empty.
\<close>

datatype NoLock = NoLock

definition NoLock_try_lock :: "Timeout \<Rightarrow> NoLock \<Rightarrow> bool \<times> Timeout \<times> NoLock \<times> event list" where
  "NoLock_try_lock timeout l = (True, timeout, l, [])"

definition NoLock_try_lock0 :: "NoLock \<Rightarrow> bool \<times> NoLock \<times> event list" where
  "NoLock_try_lock0 l = (True, l, [])"

definition NoLock_lock :: "NoLock \<Rightarrow> NoLock \<times> event list" where
  "NoLock_lock l = (l, [])"

definition NoLock_unlock :: "NoLock \<Rightarrow> NoLock \<times> event list" where
  "NoLock_unlock l = (l, [])"

subsection \<open>LockGuard\<close>

text \<open>
  The concept \<open>Lockable\<close> (lines 215 to 220): a type with \<open>lock()\<close> and \<open>unlock()\<close>. A
  lock type enters the guard as the pair of these two member functions on its objects;
  \<open>None\<close> is a call that never returns.
\<close>

record 'l Lockable =
  lock_of :: "'l \<Rightarrow> 'l option"
  unlock_of :: "'l \<Rightarrow> 'l option"

text \<open>
  The store holds the lock objects by address and the calls made on them so far, in
  order, each with the address of the lock it was made on.
\<close>

datatype lock_call = LockCalled nat | UnlockCalled nat

record 'l store =
  objects :: "nat \<Rightarrow> 'l option"
  calls :: "lock_call list"

text \<open>
  \<open>class LockGuard\<close> (lines 237 to 303): a pointer to the managed lock (\<open>None\<close> is
  \<open>nullptr\<close>) and the ownership flag.
\<close>

record LockGuard =
  wrappedLock :: "nat option"
  isOwned :: bool

text \<open>
  How a call through the guard ends: it returns, it never returns, or it dereferences
  a pointer that refers to no lock.
\<close>

datatype 'a outcome = Returns 'a | NeverReturns | BadPointer

text \<open>\<open>wrappedLock->lock()\<close> and \<open>wrappedLock->unlock()\<close>.\<close>

definition call_lock :: "'l Lockable \<Rightarrow> nat option \<Rightarrow> 'l store \<Rightarrow> 'l store outcome" where
  "call_lock L ptr s =
     (case ptr of
        None \<Rightarrow> BadPointer
      | Some p \<Rightarrow>
          (case objects s p of
             None \<Rightarrow> BadPointer
           | Some l \<Rightarrow>
               (case lock_of L l of
                  None \<Rightarrow> NeverReturns
                | Some l' \<Rightarrow>
                    Returns (s\<lparr>objects := (objects s)(p \<mapsto> l'),
                               calls := calls s @ [LockCalled p]\<rparr>))))"

definition call_unlock :: "'l Lockable \<Rightarrow> nat option \<Rightarrow> 'l store \<Rightarrow> 'l store outcome" where
  "call_unlock L ptr s =
     (case ptr of
        None \<Rightarrow> BadPointer
      | Some p \<Rightarrow>
          (case objects s p of
             None \<Rightarrow> BadPointer
           | Some l \<Rightarrow>
               (case unlock_of L l of
                  None \<Rightarrow> NeverReturns
                | Some l' \<Rightarrow>
                    Returns (s\<lparr>objects := (objects s)(p \<mapsto> l'),
                               calls := calls s @ [UnlockCalled p]\<rparr>))))"

text \<open>
  \<open>explicit LockGuard(Lock &lock)\<close> (lines 248 to 252): the members are initialised,
  then the body locks. \<open>p\<close> is the address of \<open>lock\<close>.
\<close>

definition LockGuard_ctor :: "'l Lockable \<Rightarrow> nat \<Rightarrow> 'l store \<Rightarrow> (LockGuard \<times> 'l store) outcome" where
  "LockGuard_ctor L p s =
     (let g = \<lparr>wrappedLock = Some p, isOwned = True\<rparr>
      in case call_lock L (wrappedLock g) s of
           Returns s' \<Rightarrow> Returns (g, s')
         | NeverReturns \<Rightarrow> NeverReturns
         | BadPointer \<Rightarrow> BadPointer)"

text \<open>
  \<open>explicit LockGuard(LockGuard &&guard)\<close> (lines 255 to 260): the new guard, and the
  source guard as the constructor leaves it.
\<close>

definition LockGuard_move :: "LockGuard \<Rightarrow> LockGuard \<times> LockGuard" where
  "LockGuard_move guard =
     (\<lparr>wrappedLock = wrappedLock guard, isOwned = isOwned guard\<rparr>,
      guard\<lparr>wrappedLock := None, isOwned := False\<rparr>)"

text \<open>\<open>~LockGuard()\<close> (lines 296 to 302).\<close>

definition LockGuard_dtor :: "'l Lockable \<Rightarrow> LockGuard \<Rightarrow> 'l store \<Rightarrow> 'l store outcome" where
  "LockGuard_dtor L g s =
     (if isOwned g then call_unlock L (wrappedLock g) s else Returns s)"

text \<open>\<open>NoLock\<close> as a \<open>Lockable\<close>.\<close>

definition NoLock_Lockable :: "NoLock Lockable" where
  "NoLock_Lockable =
     \<lparr>lock_of = (\<lambda>l. Some (fst (NoLock_lock l))),
      unlock_of = (\<lambda>l. Some (fst (NoLock_unlock l)))\<rparr>"

text \<open>
  \<open>FlagLock\<close> as a \<open>Lockable\<close>, for a thread that meets the schedule \<open>sched\<close> in its
  \<open>lock()\<close> calls.
\<close>

definition FlagLock_Lockable :: "int \<Rightarrow> env list \<Rightarrow> FlagLock Lockable" where
  "FlagLock_Lockable U sched =
     \<lparr>lock_of = (\<lambda>l. map_option fst (FlagLock_lock U sched l)),
      unlock_of = (\<lambda>l. Some (fst (FlagLock_unlock l)))\<rparr>"

section \<open>Properties\<close>

subsection \<open>Facts about the retry loop of FlagLock\<close>

lemma futex_wait_unlimited:
  "0 < U \<Longrightarrow> futex_wait U w \<lparr>remaining = U\<rparr> ex a = Some t' \<Longrightarrow> t' = \<lparr>remaining = U\<rparr>"
  by (auto simp: futex_wait_def split: if_splits option.splits)

lemma wait_step_unlimited:
  "0 < U \<Longrightarrow> wait_step U e old \<lparr>remaining = U\<rparr> l tr = Some (t', l', tr') \<Longrightarrow>
     t' = \<lparr>remaining = U\<rparr>"
  by (auto simp: wait_step_def Let_def split: if_splits option.splits dest: futex_wait_unlimited)

lemma try_lock_loop_false:
  "try_lock_loop U sched old t l tr = Some (False, t', l', tr') \<Longrightarrow> \<not> 0 < remaining t'"
proof (induction sched arbitrary: old t l tr)
  case Nil
  then show ?case by (simp split: if_splits)
next
  case (Cons e sched)
  then show ?case
    by (auto split: if_splits prod.splits option.splits)
qed

lemma try_lock_loop_unlimited:
  "0 < U \<Longrightarrow> try_lock_loop U sched old \<lparr>remaining = U\<rparr> l tr = Some (r, t', l', tr') \<Longrightarrow> r"
proof (induction sched arbitrary: old l tr)
  case Nil
  then show ?case by (simp split: if_splits)
next
  case (Cons e sched)
  then show ?case
    by (auto split: if_splits prod.splits option.splits dest: wait_step_unlimited)
qed

lemma try_lock_loop_true:
  "try_lock_loop U sched old t l tr = Some (True, t', l', tr') \<Longrightarrow>
     flag l' = LockedWithWaiters \<and> last tr' = CAS Unlocked LockedWithWaiters True"
proof (induction sched arbitrary: old t l tr)
  case Nil
  then show ?case by (simp split: if_splits)
next
  case (Cons e sched)
  then show ?case
    by (auto simp: compare_exchange_strong_def split: if_splits prod.splits option.splits)
qed

lemma try_lock_loop_hd:
  "try_lock_loop U sched old t l tr = Some (r, t', l', tr') \<Longrightarrow> tr \<noteq> [] \<Longrightarrow> hd tr' = hd tr"
proof (induction sched arbitrary: old t l tr)
  case Nil
  then show ?case by (simp split: if_splits)
next
  case (Cons e sched)
  then show ?case
    by (fastforce simp: upgrade_step_def wait_step_def Let_def
          split: if_splits prod.splits option.splits)
qed

lemma try_lock_loop_exhausted:
  "\<not> 0 < remaining t \<Longrightarrow> try_lock_loop U sched old t l tr = Some (False, t, l, tr)"
  by (cases sched) simp_all

lemma try_lock_fast:
  "flag l = Unlocked \<Longrightarrow>
     FlagLock_try_lock U sched t l
       = Some (True, t, l\<lparr>flag := Locked\<rparr>, [CAS Unlocked Locked True])"
  by (simp add: FlagLock_try_lock_def compare_exchange_strong_def)

lemma try_lock_slow:
  "flag l \<noteq> Unlocked \<Longrightarrow>
     FlagLock_try_lock U sched t l
       = try_lock_loop U sched (flag l) t l [CAS Unlocked Locked False]"
  by (auto simp: FlagLock_try_lock_def compare_exchange_strong_def)

subsection \<open>FlagLock: the claims\<close>

text \<open>
  C2. \<open>FlagLock::try_lock(timeout)\<close> returns false only when the timeout cursor is
  exhausted: whenever the call returns false, the remaining budget of the cursor is not
  greater than zero at that point. Consequently, with an unlimited value \<open>U\<close> that is
  greater than zero, \<open>try_lock\<close> on a cursor constructed from \<open>U\<close> never returns false,
  and whenever \<open>lock()\<close> returns, the last operation of the call was a successful
  compare-and-set from \<open>Unlocked\<close> and the word is not \<open>Unlocked\<close>.
\<close>

theorem FlagLock_try_lock_false_only_exhausted:
  "(FlagLock_try_lock U sched t l = Some (False, t', l', tr) \<longrightarrow> \<not> 0 < remaining t')
   \<and> (0 < U \<longrightarrow> FlagLock_try_lock U sched \<lparr>remaining = U\<rparr> l \<noteq> Some (False, t', l', tr))
   \<and> (0 < U \<longrightarrow> FlagLock_lock U sched l = Some (l', tr) \<longrightarrow>
        flag l' \<noteq> Unlocked \<and> (\<exists>d. last tr = CAS Unlocked d True))"
proof -
  have p1: "\<not> 0 < remaining t'" if a: "FlagLock_try_lock U sched t l = Some (False, t', l', tr)"
  proof -
    from a have "flag l \<noteq> Unlocked"
      by (auto simp: try_lock_fast)
    with a have "try_lock_loop U sched (flag l) t l [CAS Unlocked Locked False]
                   = Some (False, t', l', tr)"
      by (simp add: try_lock_slow)
    then show ?thesis
      by (rule try_lock_loop_false)
  qed
  have p2: "FlagLock_try_lock U sched \<lparr>remaining = U\<rparr> l \<noteq> Some (False, t', l', tr)" if u: "0 < U"
  proof (cases "flag l = Unlocked")
    case True
    then show ?thesis by (simp add: try_lock_fast)
  next
    case False
    then show ?thesis
      using try_lock_loop_unlimited [OF u] by (fastforce simp: try_lock_slow)
  qed
  have p3: "flag l' \<noteq> Unlocked \<and> (\<exists>d. last tr = CAS Unlocked d True)"
    if u: "0 < U" and a: "FlagLock_lock U sched l = Some (l', tr)"
  proof -
    from a obtain r t2 where b: "FlagLock_try_lock U sched \<lparr>remaining = U\<rparr> l = Some (r, t2, l', tr)"
      by (auto simp: FlagLock_lock_def split: option.splits)
    show ?thesis
    proof (cases "flag l = Unlocked")
      case True
      with b show ?thesis by (auto simp: try_lock_fast)
    next
      case False
      with b have c: "try_lock_loop U sched (flag l) \<lparr>remaining = U\<rparr> l [CAS Unlocked Locked False]
                        = Some (r, t2, l', tr)"
        by (simp add: try_lock_slow)
      from try_lock_loop_unlimited [OF u c] have r by simp
      with c show ?thesis
        using try_lock_loop_true by fastforce
    qed
  qed
  from p1 p2 p3 show ?thesis by blast
qed

theorem FlagLock_try_lock_false_only_exhausted_witness:
  "FlagLock_try_lock 1000
      [\<lparr>before_upgrade = None, before_wait = None, woken = None, before_acquire = None\<rparr>,
       \<lparr>before_upgrade = None, before_wait = None, woken = None, before_acquire = None\<rparr>]
      \<lparr>remaining = 5\<rparr> \<lparr>flag = Locked\<rparr>
     = Some (False, \<lparr>remaining = 0\<rparr>, \<lparr>flag = LockedWithWaiters\<rparr>,
         [CAS Unlocked Locked False, CAS Locked LockedWithWaiters True, FutexWait Locked,
          CAS Unlocked LockedWithWaiters False, FutexWait LockedWithWaiters,
          CAS Unlocked LockedWithWaiters False])
   \<and> \<not> 0 < remaining \<lparr>remaining = 0\<rparr>
   \<and> (0::int) < 1000
   \<and> FlagLock_lock 1000
        [\<lparr>before_upgrade = None, before_wait = None, woken = None, before_acquire = None\<rparr>,
         \<lparr>before_upgrade = None, before_wait = None, woken = Some 3,
          before_acquire = Some \<lparr>flag = Unlocked\<rparr>\<rparr>]
        \<lparr>flag = Locked\<rparr>
     = Some (\<lparr>flag = LockedWithWaiters\<rparr>,
         [CAS Unlocked Locked False, CAS Locked LockedWithWaiters True, FutexWait Locked,
          CAS Unlocked LockedWithWaiters False, FutexWait LockedWithWaiters,
          CAS Unlocked LockedWithWaiters True])
   \<and> flag \<lparr>flag = LockedWithWaiters\<rparr> \<noteq> Unlocked"
proof -
  have e1: "FlagLock_try_lock 1000
      [\<lparr>before_upgrade = None, before_wait = None, woken = None, before_acquire = None\<rparr>,
       \<lparr>before_upgrade = None, before_wait = None, woken = None, before_acquire = None\<rparr>]
      \<lparr>remaining = 5\<rparr> \<lparr>flag = Locked\<rparr>
     = Some (False, \<lparr>remaining = 0\<rparr>, \<lparr>flag = LockedWithWaiters\<rparr>,
         [CAS Unlocked Locked False, CAS Locked LockedWithWaiters True, FutexWait Locked,
          CAS Unlocked LockedWithWaiters False, FutexWait LockedWithWaiters,
          CAS Unlocked LockedWithWaiters False])"
    by code_simp
  have e2: "FlagLock_lock 1000
        [\<lparr>before_upgrade = None, before_wait = None, woken = None, before_acquire = None\<rparr>,
         \<lparr>before_upgrade = None, before_wait = None, woken = Some 3,
          before_acquire = Some \<lparr>flag = Unlocked\<rparr>\<rparr>]
        \<lparr>flag = Locked\<rparr>
     = Some (\<lparr>flag = LockedWithWaiters\<rparr>,
         [CAS Unlocked Locked False, CAS Locked LockedWithWaiters True, FutexWait Locked,
          CAS Unlocked LockedWithWaiters False, FutexWait LockedWithWaiters,
          CAS Unlocked LockedWithWaiters True])"
    by code_simp
  from FlagLock_try_lock_false_only_exhausted [THEN conjunct1, rule_format, OF e1]
  have "\<not> 0 < remaining \<lparr>remaining = 0\<rparr>" .
  moreover from FlagLock_try_lock_false_only_exhausted
     [THEN conjunct2, THEN conjunct2, rule_format, OF _ e2]
  have "flag \<lparr>flag = LockedWithWaiters\<rparr> \<noteq> Unlocked" by simp
  ultimately show ?thesis using e1 e2 by simp
qed

text \<open>
  C4. When the lock word is \<open>Unlocked\<close> at entry, \<open>FlagLock::try_lock(timeout)\<close> issues a
  single compare-and-set that moves the word to \<open>Locked\<close>, returns true and calls no
  wait. Every success obtained inside the retry loop leaves the word at
  \<open>LockedWithWaiters\<close>, by a compare-and-set from \<open>Unlocked\<close> that is the last operation
  of the call, whatever the other threads did; so does every success of a call that
  found the word not \<open>Unlocked\<close> at entry, whose first operation is the failed
  compare-and-set to \<open>Locked\<close>.
\<close>

theorem FlagLock_try_lock_acquire_states:
  "(flag l = Unlocked \<longrightarrow>
      FlagLock_try_lock U sched t l
        = Some (True, t, l\<lparr>flag := Locked\<rparr>, [CAS Unlocked Locked True]))
   \<and> (try_lock_loop U sched old t l tr = Some (True, t', l', tr') \<longrightarrow>
        flag l' = LockedWithWaiters \<and> last tr' = CAS Unlocked LockedWithWaiters True)
   \<and> (flag l \<noteq> Unlocked \<longrightarrow> FlagLock_try_lock U sched t l = Some (True, t', l', tr') \<longrightarrow>
        flag l' = LockedWithWaiters \<and> hd tr' = CAS Unlocked Locked False
        \<and> last tr' = CAS Unlocked LockedWithWaiters True)"
proof -
  have p3: "flag l' = LockedWithWaiters \<and> hd tr' = CAS Unlocked Locked False
              \<and> last tr' = CAS Unlocked LockedWithWaiters True"
    if a: "flag l \<noteq> Unlocked" and b: "FlagLock_try_lock U sched t l = Some (True, t', l', tr')"
  proof -
    from a b have c: "try_lock_loop U sched (flag l) t l [CAS Unlocked Locked False]
                        = Some (True, t', l', tr')"
      by (simp add: try_lock_slow)
    from try_lock_loop_hd [OF c] have "hd tr' = CAS Unlocked Locked False"
      by simp
    with try_lock_loop_true [OF c] show ?thesis
      by simp
  qed
  from try_lock_fast try_lock_loop_true p3 show ?thesis
    by blast
qed

theorem FlagLock_try_lock_acquire_states_witness:
  "flag \<lparr>flag = Unlocked\<rparr> = Unlocked
   \<and> FlagLock_try_lock 1000 [] \<lparr>remaining = 7\<rparr> \<lparr>flag = Unlocked\<rparr>
       = Some (True, \<lparr>remaining = 7\<rparr>, \<lparr>flag = Locked\<rparr>, [CAS Unlocked Locked True])
   \<and> flag \<lparr>flag = Locked\<rparr> \<noteq> Unlocked
   \<and> FlagLock_try_lock 1000
        [\<lparr>before_upgrade = None, before_wait = None, woken = Some 3, before_acquire = None\<rparr>,
         \<lparr>before_upgrade = None, before_wait = None, woken = Some 3,
          before_acquire = Some \<lparr>flag = Unlocked\<rparr>\<rparr>]
        \<lparr>remaining = 7\<rparr> \<lparr>flag = Locked\<rparr>
       = Some (True, \<lparr>remaining = 4\<rparr>, \<lparr>flag = LockedWithWaiters\<rparr>,
           [CAS Unlocked Locked False, CAS Locked LockedWithWaiters True, FutexWait Locked,
            CAS Unlocked LockedWithWaiters False, FutexWait LockedWithWaiters,
            CAS Unlocked LockedWithWaiters True])
   \<and> flag \<lparr>flag = LockedWithWaiters\<rparr> = LockedWithWaiters"
proof -
  have h1: "flag \<lparr>flag = Unlocked\<rparr> = Unlocked" and h2: "flag \<lparr>flag = Locked\<rparr> \<noteq> Unlocked"
    by simp_all
  have e2: "FlagLock_try_lock 1000
        [\<lparr>before_upgrade = None, before_wait = None, woken = Some 3, before_acquire = None\<rparr>,
         \<lparr>before_upgrade = None, before_wait = None, woken = Some 3,
          before_acquire = Some \<lparr>flag = Unlocked\<rparr>\<rparr>]
        \<lparr>remaining = 7\<rparr> \<lparr>flag = Locked\<rparr>
       = Some (True, \<lparr>remaining = 4\<rparr>, \<lparr>flag = LockedWithWaiters\<rparr>,
           [CAS Unlocked Locked False, CAS Locked LockedWithWaiters True, FutexWait Locked,
            CAS Unlocked LockedWithWaiters False, FutexWait LockedWithWaiters,
            CAS Unlocked LockedWithWaiters True])"
    by code_simp
  from FlagLock_try_lock_acquire_states [THEN conjunct1, rule_format, OF h1, of 1000 "[]" "\<lparr>remaining = 7\<rparr>"]
  have e1: "FlagLock_try_lock 1000 [] \<lparr>remaining = 7\<rparr> \<lparr>flag = Unlocked\<rparr>
       = Some (True, \<lparr>remaining = 7\<rparr>, \<lparr>flag = Locked\<rparr>, [CAS Unlocked Locked True])"
    by simp
  from FlagLock_try_lock_acquire_states [THEN conjunct2, THEN conjunct2, rule_format, OF h2 e2]
  have "flag \<lparr>flag = LockedWithWaiters\<rparr> = LockedWithWaiters"
    by simp
  with h1 h2 e1 e2 show ?thesis
    by simp
qed

text \<open>
  C5. \<open>FlagLock::unlock()\<close> exchanges the lock word to \<open>Unlocked\<close> and reads the previous
  value: the word is \<open>Unlocked\<close> afterwards and the first operation of the call is that
  exchange. The call wakes all waiters if and only if the previous value was
  \<open>LockedWithWaiters\<close>; when the previous value was \<open>Locked\<close> the exchange is the only
  operation of the call.
\<close>

theorem FlagLock_unlock_wakes_iff_waiters:
  "FlagLock_unlock l
     = (l\<lparr>flag := Unlocked\<rparr>,
        Xchg (flag l) Unlocked # (if flag l = LockedWithWaiters then [NotifyAll] else []))
   \<and> (NotifyAll \<in> set (snd (FlagLock_unlock l))) = (flag l = LockedWithWaiters)
   \<and> (flag l = Locked \<longrightarrow> snd (FlagLock_unlock l) = [Xchg Locked Unlocked])"
  by (simp add: FlagLock_unlock_def exchange_def)

theorem FlagLock_unlock_wakes_iff_waiters_witness:
  "FlagLock_unlock \<lparr>flag = LockedWithWaiters\<rparr>
     = (\<lparr>flag = Unlocked\<rparr>, [Xchg LockedWithWaiters Unlocked, NotifyAll])
   \<and> flag \<lparr>flag = Locked\<rparr> = Locked
   \<and> FlagLock_unlock \<lparr>flag = Locked\<rparr> = (\<lparr>flag = Unlocked\<rparr>, [Xchg Locked Unlocked])"
  using FlagLock_unlock_wakes_iff_waiters [of "\<lparr>flag = LockedWithWaiters\<rparr>"]
    FlagLock_unlock_wakes_iff_waiters [of "\<lparr>flag = Locked\<rparr>"]
  by simp

text \<open>
  C8. \<open>FlagLock::try_lock()\<close> is \<open>try_lock\<close> on a cursor with a budget of zero. When the
  lock word is \<open>Unlocked\<close> it returns true, with the word moved to \<open>Locked\<close>. When the lock
  word is \<open>Locked\<close> or \<open>LockedWithWaiters\<close> it returns false after the one failed
  compare-and-set, and no wait is ever called, whatever the schedule.
\<close>

theorem FlagLock_try_lock0_probe:
  "FlagLock_try_lock0 U sched l
     = (case FlagLock_try_lock U sched \<lparr>remaining = 0\<rparr> l of
          None \<Rightarrow> None
        | Some (r, t', l', tr) \<Rightarrow> Some (r, l', tr))
   \<and> (flag l = Unlocked \<longrightarrow>
        FlagLock_try_lock0 U sched l
          = Some (True, l\<lparr>flag := Locked\<rparr>, [CAS Unlocked Locked True]))
   \<and> (flag l = Locked \<or> flag l = LockedWithWaiters \<longrightarrow>
        FlagLock_try_lock0 U sched l = Some (False, l, [CAS Unlocked Locked False]))
   \<and> (\<forall>r l' tr v. FlagLock_try_lock0 U sched l = Some (r, l', tr) \<longrightarrow> FutexWait v \<notin> set tr)"
proof -
  have p1: "FlagLock_try_lock0 U sched l
              = Some (True, l\<lparr>flag := Locked\<rparr>, [CAS Unlocked Locked True])"
    if "flag l = Unlocked"
    using that by (simp add: FlagLock_try_lock0_def try_lock_fast)
  have p2: "FlagLock_try_lock0 U sched l = Some (False, l, [CAS Unlocked Locked False])"
    if "flag l \<noteq> Unlocked"
    using that by (simp add: FlagLock_try_lock0_def try_lock_slow try_lock_loop_exhausted)
  have p3: "FutexWait v \<notin> set tr" if "FlagLock_try_lock0 U sched l = Some (r, l', tr)"
    for r l' tr v
    using that p1 p2 by (cases "flag l = Unlocked") auto
  from p1 p2 p3 show ?thesis
    by (auto simp: FlagLock_try_lock0_def)
qed

theorem FlagLock_try_lock0_probe_witness:
  "flag \<lparr>flag = Unlocked\<rparr> = Unlocked
   \<and> FlagLock_try_lock0 1000 [] \<lparr>flag = Unlocked\<rparr>
       = Some (True, \<lparr>flag = Locked\<rparr>, [CAS Unlocked Locked True])
   \<and> flag \<lparr>flag = Locked\<rparr> = Locked
   \<and> FlagLock_try_lock0 1000 [] \<lparr>flag = Locked\<rparr>
       = Some (False, \<lparr>flag = Locked\<rparr>, [CAS Unlocked Locked False])
   \<and> flag \<lparr>flag = LockedWithWaiters\<rparr> = LockedWithWaiters
   \<and> FlagLock_try_lock0 1000 [] \<lparr>flag = LockedWithWaiters\<rparr>
       = Some (False, \<lparr>flag = LockedWithWaiters\<rparr>, [CAS Unlocked Locked False])
   \<and> FutexWait Locked \<notin> set [CAS Unlocked Locked False]"
  using FlagLock_try_lock0_probe [of 1000 "[]" "\<lparr>flag = Unlocked\<rparr>", THEN conjunct2]
    FlagLock_try_lock0_probe [of 1000 "[]" "\<lparr>flag = Locked\<rparr>", THEN conjunct2]
    FlagLock_try_lock0_probe [of 1000 "[]" "\<lparr>flag = LockedWithWaiters\<rparr>", THEN conjunct2]
  by simp

text \<open>
  C10. On a \<open>FlagLock\<close> whose word is not \<open>Unlocked\<close>, a call of \<open>try_lock\<close> on a cursor
  whose remaining budget is not greater than zero, and so the probe \<open>try_lock()\<close>,
  returns false and leaves the lock word and the cursor as they were: the one operation
  it issues is the failed compare-and-set of the fast path, so the trace holds no
  successful compare-and-set, no exchange and no wait.
\<close>

theorem FlagLock_failed_probe_frame:
  "flag l \<noteq> Unlocked \<Longrightarrow>
     (\<not> 0 < remaining t \<longrightarrow>
        FlagLock_try_lock U sched t l = Some (False, t, l, [CAS Unlocked Locked False]))
     \<and> (\<exists>tr. FlagLock_try_lock0 U sched l = Some (False, l, tr)
           \<and> (\<forall>ex d. CAS ex d True \<notin> set tr)
           \<and> (\<forall>a b. Xchg a b \<notin> set tr)
           \<and> (\<forall>v. FutexWait v \<notin> set tr))"
  by (simp add: FlagLock_try_lock0_def try_lock_slow try_lock_loop_exhausted)

theorem FlagLock_failed_probe_frame_witness:
  "flag \<lparr>flag = Locked\<rparr> \<noteq> Unlocked
   \<and> \<not> 0 < remaining \<lparr>remaining = 0\<rparr>
   \<and> FlagLock_try_lock 1000
        [\<lparr>before_upgrade = None, before_wait = None, woken = Some 3,
          before_acquire = Some \<lparr>flag = Unlocked\<rparr>\<rparr>]
        \<lparr>remaining = 0\<rparr> \<lparr>flag = Locked\<rparr>
       = Some (False, \<lparr>remaining = 0\<rparr>, \<lparr>flag = Locked\<rparr>, [CAS Unlocked Locked False])
   \<and> FlagLock_try_lock0 1000
        [\<lparr>before_upgrade = None, before_wait = None, woken = Some 3,
          before_acquire = Some \<lparr>flag = Unlocked\<rparr>\<rparr>]
        \<lparr>flag = Locked\<rparr>
       = Some (False, \<lparr>flag = Locked\<rparr>, [CAS Unlocked Locked False])"
proof -
  have h: "flag \<lparr>flag = Locked\<rparr> \<noteq> Unlocked"
    by simp
  have e: "FlagLock_try_lock0 1000
        [\<lparr>before_upgrade = None, before_wait = None, woken = Some 3,
          before_acquire = Some \<lparr>flag = Unlocked\<rparr>\<rparr>]
        \<lparr>flag = Locked\<rparr>
       = Some (False, \<lparr>flag = Locked\<rparr>, [CAS Unlocked Locked False])"
    by code_simp
  from FlagLock_failed_probe_frame [OF h, of "\<lparr>remaining = 0\<rparr>" 1000
      "[\<lparr>before_upgrade = None, before_wait = None, woken = Some 3,
          before_acquire = Some \<lparr>flag = Unlocked\<rparr>\<rparr>]"] e h
  show ?thesis
    by simp
qed

subsection \<open>Facts about TicketLock\<close>

lemma unat_succ_u32:
  "unat x + 1 < 2 ^ 32 \<Longrightarrow> unat ((x::32 word) + 1) = unat x + 1"
  by (simp add: unat_word_ariths unat_arith_simps)

lemma apply_call_simps:
  "snd (fetch_add_next l) = l\<lparr>next_ticket := next_ticket l + 1\<rparr>"
  "fst (TicketLock_unlock w l) = interfere w (l\<lparr>current := current l + 1\<rparr>)"
  "interfere None l = l"
  by (simp_all add: fetch_add_next_def TicketLock_unlock_def add_fetch_current_def
        interfere_def Let_def)

lemma counters_after_append:
  "counters_after (cs @ ds) l = counters_after ds (counters_after cs l)"
  by (induction cs arbitrary: l) simp_all

lemma counters_after_pairs:
  "counters_after (concat (replicate n [LockCall, UnlockCall])) l
     = \<lparr>current = current l + of_nat n, next_ticket = next_ticket l + of_nat n\<rparr>"
proof (induction n arbitrary: l)
  case 0
  show ?case by simp
next
  case (Suc n)
  show ?case
    by (simp add: Suc apply_call_simps algebra_simps)
qed

lemma held_ok_pairs:
  "held_ok k (concat (replicate n [LockCall, UnlockCall]) @ cs) = held_ok k cs"
  by (induction n) simp_all

lemma lock_calls_pairs:
  "lock_calls (concat (replicate n [LockCall, UnlockCall]) @ cs) = n + lock_calls cs"
  by (induction n) (simp_all add: lock_calls_def)

lemma counters_after_bounded:
  "held_ok n cs \<Longrightarrow> unat (current l) + n = unat (next_ticket l) \<Longrightarrow>
     unat (next_ticket l) + lock_calls cs < 2 ^ 32 \<Longrightarrow>
     unat (current (counters_after cs l)) \<le> unat (next_ticket (counters_after cs l))"
proof (induction n cs arbitrary: l rule: held_ok.induct)
  case (1 n)
  then show ?case by simp
next
  case (2 n cs)
  from "2.prems" have b: "unat (next_ticket l) + 1 < 2 ^ 32"
    by (simp add: lock_calls_def)
  then have u: "unat (next_ticket l + 1) = unat (next_ticket l) + 1"
    by (rule unat_succ_u32)
  show ?case
    using "2.prems" u by (simp add: apply_call_simps lock_calls_def "2.IH")
next
  case (3 n cs)
  from "3.prems" have n: "0 < n" and h: "held_ok (n - 1) cs"
    by simp_all
  from "3.prems" n have b: "unat (current l) + 1 < 2 ^ 32"
    by simp
  then have u: "unat (current l + 1) = unat (current l) + 1"
    by (rule unat_succ_u32)
  show ?case
    using "3.prems" n u by (simp add: apply_call_simps lock_calls_def "3.IH")
qed

lemma lock_loop_trace:
  "lock_loop ticket sched l tr = Some (l', tr') \<Longrightarrow>
     current l' = ticket \<and>
     (\<exists>vs. tr' = tr @ concat (map (\<lambda>v. [LoadCurrent v, WaitCurrent v]) vs) @ [LoadCurrent ticket]
            \<and> ticket \<notin> set vs)"
proof (induction sched arbitrary: l tr)
  case Nil
  then show ?case by simp
next
  case (Cons e sched)
  let ?l1 = "interfere (before_load e) l"
  let ?l2 = "interfere (before_block e) ?l1"
  show ?case
  proof (cases "current ?l1 = ticket")
    case True
    with Cons.prems have "l' = ?l1" and "tr' = tr @ [LoadCurrent ticket]"
      by (simp_all add: Let_def)
    with True show ?thesis
      by (auto intro: exI [of _ "[]"])
  next
    case False
    with Cons.prems have
      r: "lock_loop ticket sched ?l2 (tr @ [LoadCurrent (current ?l1), WaitCurrent (current ?l1)])
            = Some (l', tr')"
      by (simp add: Let_def split: if_splits)
    from Cons.IH [OF r] obtain vs where
      c: "current l' = ticket" and
      t: "tr' = (tr @ [LoadCurrent (current ?l1), WaitCurrent (current ?l1)])
                @ concat (map (\<lambda>v. [LoadCurrent v, WaitCurrent v]) vs) @ [LoadCurrent ticket]" and
      n: "ticket \<notin> set vs"
      by blast
    from t have "tr' = tr @ concat (map (\<lambda>v. [LoadCurrent v, WaitCurrent v]) (current ?l1 # vs))
                         @ [LoadCurrent ticket]"
      by simp
    moreover from n False have "ticket \<notin> set (current ?l1 # vs)"
      by auto
    ultimately show ?thesis
      using c by blast
  qed
qed

lemma lock_alone:
  "current l = next_ticket l \<Longrightarrow>
     TicketLock_lock [alone] l
       = Some (l\<lparr>next_ticket := next_ticket l + 1\<rparr>,
               [FetchAddNext (next_ticket l), LoadCurrent (next_ticket l)])"
  by (simp add: TicketLock_lock_def fetch_add_next_def alone_def interfere_def Let_def)

lemma alone_rounds_pairs:
  "current l = next_ticket l \<Longrightarrow>
     alone_rounds n l
       = Some \<lparr>current = current l + of_nat n, next_ticket = next_ticket l + of_nat n\<rparr>"
proof (induction n arbitrary: l)
  case 0
  then show ?case by simp
next
  case (Suc n)
  then show ?case
    by (simp add: lock_alone apply_call_simps algebra_simps)
qed

lemma lock_loop_rounds:
  "ticket \<notin> set ws \<Longrightarrow>
     lock_loop ticket
       (map (\<lambda>v. \<lparr>before_load = Some \<lparr>current = v, next_ticket = m\<rparr>, before_block = None,
                   wake_arrives = True\<rparr>) ws @ rest) s tr0
       = lock_loop ticket rest (last (s # map (\<lambda>v. \<lparr>current = v, next_ticket = m\<rparr>) ws))
           (tr0 @ concat (map (\<lambda>v. [LoadCurrent v, WaitCurrent v]) ws))"
proof (induction ws arbitrary: s tr0)
  case Nil
  show ?case by simp
next
  case (Cons w ws)
  from Cons.prems have "ticket \<notin> set ws" and "w \<noteq> ticket"
    by auto
  then show ?case
    by (simp add: Cons.IH interfere_def futex_wait_forever_def Let_def)
qed

subsection \<open>TicketLock: the claims\<close>

text \<open>
  C1, as the claim states it: after any sequence of \<open>lock()\<close> and \<open>unlock()\<close> calls on
  32-bit counters, \<open>next >= current\<close>. It fails on the sequence of 4294967295
  \<open>lock()\<close>/\<open>unlock()\<close> pairs followed by one more \<open>lock()\<close>: every \<open>unlock()\<close> of the
  sequence releases a ticket taken before it, the sequence holds 4294967296 calls of
  \<open>lock()\<close>, and at its end \<open>next\<close> has wrapped around to 0 while \<open>current\<close> is 4294967295.
  A single thread alone on the lock reaches that state: each of its \<open>lock()\<close> calls
  returns, the last one included. The invariant also fails, on a fresh lock, after an
  \<open>unlock()\<close> that releases no ticket (the header does not check ownership).
\<close>

theorem TicketLock_invariant_counterexample:
  "held_ok 0 (concat (replicate 4294967295 [LockCall, UnlockCall]) @ [LockCall])
   \<and> lock_calls (concat (replicate 4294967295 [LockCall, UnlockCall]) @ [LockCall]) = 4294967296
   \<and> counters_after (concat (replicate 4294967295 [LockCall, UnlockCall]) @ [LockCall])
        TicketLock_init
       = \<lparr>current = 4294967295, next_ticket = 0\<rparr>
   \<and> alone_rounds 4294967295 TicketLock_init
       = Some \<lparr>current = 4294967295, next_ticket = 4294967295\<rparr>
   \<and> TicketLock_lock [alone] \<lparr>current = 4294967295, next_ticket = 4294967295\<rparr>
       = Some (\<lparr>current = 4294967295, next_ticket = 0\<rparr>,
               [FetchAddNext 4294967295, LoadCurrent 4294967295])
   \<and> \<not> (next_ticket (counters_after
              (concat (replicate 4294967295 [LockCall, UnlockCall]) @ [LockCall]) TicketLock_init)
          \<ge> current (counters_after
              (concat (replicate 4294967295 [LockCall, UnlockCall]) @ [LockCall]) TicketLock_init))
   \<and> \<not> (next_ticket (counters_after [UnlockCall] TicketLock_init)
          \<ge> current (counters_after [UnlockCall] TicketLock_init))"
proof -
  have c: "counters_after (concat (replicate 4294967295 [LockCall, UnlockCall]) @ [LockCall])
             TicketLock_init = \<lparr>current = 4294967295, next_ticket = 0\<rparr>"
    by (simp add: counters_after_append counters_after_pairs apply_call_simps TicketLock_init_def)
  have h: "held_ok 0 (concat (replicate 4294967295 [LockCall, UnlockCall]) @ [LockCall])"
    by (simp add: held_ok_pairs)
  have n: "lock_calls (concat (replicate 4294967295 [LockCall, UnlockCall]) @ [LockCall])
             = 4294967296"
    by (simp add: lock_calls_pairs) (simp add: lock_calls_def)
  have r: "alone_rounds 4294967295 TicketLock_init
             = Some \<lparr>current = 4294967295, next_ticket = 4294967295\<rparr>"
    by (simp add: alone_rounds_pairs TicketLock_init_def)
  have k: "TicketLock_lock [alone] \<lparr>current = 4294967295, next_ticket = 4294967295\<rparr>
             = Some (\<lparr>current = 4294967295, next_ticket = 0\<rparr>,
                     [FetchAddNext 4294967295, LoadCurrent 4294967295])"
    by (simp add: lock_alone)
  have m: "\<not> (next_ticket (counters_after [UnlockCall] TicketLock_init)
                \<ge> current (counters_after [UnlockCall] TicketLock_init))"
    by (simp add: apply_call_simps TicketLock_init_def)
  from c h n r k m show ?thesis
    by simp
qed

text \<open>
  C1, amended: on a lock with no ticket outstanding at the start (\<open>current\<close> and \<open>next\<close>
  hold the same value \<open>n0\<close>, zero on a lock whose counters start at zero), after every
  sequence of \<open>lock()\<close> and \<open>unlock()\<close> calls in which every \<open>unlock()\<close> releases a
  ticket taken before it and for which \<open>n0\<close> plus the number of \<open>lock()\<close> calls is below
  2^32, the invariant \<open>next >= current\<close> holds (\<open>lock()\<close> increments \<open>next\<close>,
  \<open>unlock()\<close> increments \<open>current\<close>, both modulo 2^32).
\<close>

theorem TicketLock_invariant_before_wrap:
  "current l0 = next_ticket l0 \<Longrightarrow> held_ok 0 cs \<Longrightarrow>
     unat (next_ticket l0) + lock_calls cs < 2 ^ 32 \<Longrightarrow>
     next_ticket (counters_after cs l0) \<ge> current (counters_after cs l0)"
  using counters_after_bounded [of 0 cs l0]
  by (simp add: word_le_nat_alt)

theorem TicketLock_invariant_before_wrap_witness:
  "current TicketLock_init = next_ticket TicketLock_init
   \<and> held_ok 0 [LockCall, LockCall, UnlockCall, LockCall]
   \<and> unat (next_ticket TicketLock_init) + lock_calls [LockCall, LockCall, UnlockCall, LockCall]
       < 2 ^ 32
   \<and> counters_after [LockCall, LockCall, UnlockCall, LockCall] TicketLock_init
       = \<lparr>current = 1, next_ticket = 3\<rparr>
   \<and> next_ticket (counters_after [LockCall, LockCall, UnlockCall, LockCall] TicketLock_init)
       \<ge> current (counters_after [LockCall, LockCall, UnlockCall, LockCall] TicketLock_init)"
proof -
  have i: "current TicketLock_init = next_ticket TicketLock_init"
    by (simp add: TicketLock_init_def)
  have h: "held_ok 0 [LockCall, LockCall, UnlockCall, LockCall]"
    by simp
  have n: "unat (next_ticket TicketLock_init)
             + lock_calls [LockCall, LockCall, UnlockCall, LockCall] < 2 ^ 32"
    by (simp add: lock_calls_def TicketLock_init_def)
  have c: "counters_after [LockCall, LockCall, UnlockCall, LockCall] TicketLock_init
             = \<lparr>current = 1, next_ticket = 3\<rparr>"
    by (simp add: apply_call_simps TicketLock_init_def)
  from TicketLock_invariant_before_wrap [OF i h n] i h n c show ?thesis
    by simp
qed

text \<open>
  C6. \<open>TicketLock::lock()\<close> fetches \<open>next\<close> and increments it, and the value fetched is
  the ticket the loop runs with. Every iteration of the loop loads \<open>current\<close>: when the
  value read is the ticket, the call returns there; when it is not, the thread waits on
  \<open>current\<close>, untimed, expecting the value just read, and the call never returns if the
  word still holds that value and no wake arrives, while it goes round the loop again,
  with the load and the wait appended to its trace, if the word has changed or a wake
  arrives. So the call repeats for as many rounds as \<open>current\<close> shows other values: when
  the other threads set \<open>current\<close> to the values \<open>vs\<close> in turn, none of them the ticket,
  waking the thread after each, and then to the ticket, the call returns with one load
  and one wait per value of \<open>vs\<close> followed by the final load; when instead of the
  ticket they set one more value and never wake the thread, the call does not return.
  Whenever the call returns, \<open>current\<close> equals the ticket at the load that ended the
  loop, and the trace is the fetch-and-increment, then for every value read that was not
  the ticket a load of it followed by a wait expecting it, then the load of the ticket.
\<close>

theorem TicketLock_lock_ticket_loop:
  "TicketLock_lock sched l
     = lock_loop (next_ticket l) sched (l\<lparr>next_ticket := next_ticket l + 1\<rparr>)
         [FetchAddNext (next_ticket l)]
   \<and> (TicketLock_lock sched l = Some (l', tr) \<longrightarrow>
        current l' = next_ticket l
        \<and> (\<exists>vs. tr = FetchAddNext (next_ticket l)
                      # concat (map (\<lambda>v. [LoadCurrent v, WaitCurrent v]) vs)
                      @ [LoadCurrent (next_ticket l)]
                 \<and> next_ticket l \<notin> set vs))
   \<and> (current (interfere (before_load e) (l\<lparr>next_ticket := next_ticket l + 1\<rparr>)) = next_ticket l \<longrightarrow>
        TicketLock_lock (e # sched) l
          = Some (interfere (before_load e) (l\<lparr>next_ticket := next_ticket l + 1\<rparr>),
                  [FetchAddNext (next_ticket l), LoadCurrent (next_ticket l)]))
   \<and> (current (interfere (before_load e) s) = ticket \<longrightarrow>
        lock_loop ticket (e # sched) s tr0
          = Some (interfere (before_load e) s, tr0 @ [LoadCurrent ticket]))
   \<and> (current (interfere (before_load e) s) \<noteq> ticket \<longrightarrow>
        current (interfere (before_block e) (interfere (before_load e) s))
          = current (interfere (before_load e) s) \<longrightarrow>
        \<not> wake_arrives e \<longrightarrow>
        lock_loop ticket (e # sched) s tr0 = None)
   \<and> (current (interfere (before_load e) s) \<noteq> ticket \<longrightarrow>
        current (interfere (before_block e) (interfere (before_load e) s))
          \<noteq> current (interfere (before_load e) s) \<or> wake_arrives e \<longrightarrow>
        lock_loop ticket (e # sched) s tr0
          = lock_loop ticket sched (interfere (before_block e) (interfere (before_load e) s))
              (tr0 @ [LoadCurrent (current (interfere (before_load e) s)),
                      WaitCurrent (current (interfere (before_load e) s))]))
   \<and> (next_ticket l \<notin> set ws \<longrightarrow>
        TicketLock_lock
          (map (\<lambda>v. \<lparr>before_load = Some \<lparr>current = v, next_ticket = m\<rparr>, before_block = None,
                      wake_arrives = True\<rparr>) ws
           @ \<lparr>before_load = Some \<lparr>current = next_ticket l, next_ticket = m\<rparr>,
              before_block = b, wake_arrives = k\<rparr> # post) l
          = Some (\<lparr>current = next_ticket l, next_ticket = m\<rparr>,
                  FetchAddNext (next_ticket l)
                  # concat (map (\<lambda>v. [LoadCurrent v, WaitCurrent v]) ws)
                  @ [LoadCurrent (next_ticket l)]))
   \<and> (next_ticket l \<notin> set ws \<longrightarrow> u \<noteq> next_ticket l \<longrightarrow>
        TicketLock_lock
          (map (\<lambda>v. \<lparr>before_load = Some \<lparr>current = v, next_ticket = m\<rparr>, before_block = None,
                      wake_arrives = True\<rparr>) ws
           @ \<lparr>before_load = Some \<lparr>current = u, next_ticket = m\<rparr>,
              before_block = None, wake_arrives = False\<rparr> # post) l
          = None)
   \<and> TicketLock_lock [] l = None"
proof -
  have p1: "TicketLock_lock sched l
              = lock_loop (next_ticket l) sched (l\<lparr>next_ticket := next_ticket l + 1\<rparr>)
                  [FetchAddNext (next_ticket l)]" for sched
    by (simp add: TicketLock_lock_def fetch_add_next_def)
  have p2: "current l' = next_ticket l
            \<and> (\<exists>vs. tr = FetchAddNext (next_ticket l)
                          # concat (map (\<lambda>v. [LoadCurrent v, WaitCurrent v]) vs)
                          @ [LoadCurrent (next_ticket l)]
                     \<and> next_ticket l \<notin> set vs)"
    if a: "TicketLock_lock sched l = Some (l', tr)"
  proof -
    from a have "lock_loop (next_ticket l) sched (l\<lparr>next_ticket := next_ticket l + 1\<rparr>)
                   [FetchAddNext (next_ticket l)] = Some (l', tr)"
      by (simp add: p1)
    from lock_loop_trace [OF this] show ?thesis
      by simp
  qed
  have p3: "TicketLock_lock (e # sched) l
              = Some (interfere (before_load e) (l\<lparr>next_ticket := next_ticket l + 1\<rparr>),
                      [FetchAddNext (next_ticket l), LoadCurrent (next_ticket l)])"
    if "current (interfere (before_load e) (l\<lparr>next_ticket := next_ticket l + 1\<rparr>)) = next_ticket l"
    using that by (simp add: p1 Let_def)
  have p4: "lock_loop ticket (e # sched) s tr0
              = Some (interfere (before_load e) s, tr0 @ [LoadCurrent ticket])"
    if "current (interfere (before_load e) s) = ticket"
    using that by (simp add: Let_def)
  have p5: "lock_loop ticket (e # sched) s tr0 = None"
    if "current (interfere (before_load e) s) \<noteq> ticket"
      and "current (interfere (before_block e) (interfere (before_load e) s))
             = current (interfere (before_load e) s)"
      and "\<not> wake_arrives e"
    using that by (simp add: Let_def futex_wait_forever_def)
  have p6: "lock_loop ticket (e # sched) s tr0
          = lock_loop ticket sched (interfere (before_block e) (interfere (before_load e) s))
              (tr0 @ [LoadCurrent (current (interfere (before_load e) s)),
                      WaitCurrent (current (interfere (before_load e) s))])"
    if "current (interfere (before_load e) s) \<noteq> ticket"
      and "current (interfere (before_block e) (interfere (before_load e) s))
             \<noteq> current (interfere (before_load e) s) \<or> wake_arrives e"
    using that by (auto simp: Let_def futex_wait_forever_def)
  have p7: "TicketLock_lock
          (map (\<lambda>v. \<lparr>before_load = Some \<lparr>current = v, next_ticket = m\<rparr>, before_block = None,
                      wake_arrives = True\<rparr>) ws
           @ \<lparr>before_load = Some \<lparr>current = next_ticket l, next_ticket = m\<rparr>,
              before_block = b, wake_arrives = k\<rparr> # post) l
          = Some (\<lparr>current = next_ticket l, next_ticket = m\<rparr>,
                  FetchAddNext (next_ticket l)
                  # concat (map (\<lambda>v. [LoadCurrent v, WaitCurrent v]) ws)
                  @ [LoadCurrent (next_ticket l)])"
    if "next_ticket l \<notin> set ws"
    using that by (simp add: p1 lock_loop_rounds Let_def interfere_def)
  have p8: "TicketLock_lock
          (map (\<lambda>v. \<lparr>before_load = Some \<lparr>current = v, next_ticket = m\<rparr>, before_block = None,
                      wake_arrives = True\<rparr>) ws
           @ \<lparr>before_load = Some \<lparr>current = u, next_ticket = m\<rparr>,
              before_block = None, wake_arrives = False\<rparr> # post) l
          = None"
    if "next_ticket l \<notin> set ws" and "u \<noteq> next_ticket l"
    using that by (simp add: p1 lock_loop_rounds Let_def interfere_def futex_wait_forever_def)
  have p9: "TicketLock_lock [] l = None"
    by (simp add: p1)
  from p1 p2 p3 p4 p5 p6 p7 p8 p9 show ?thesis
    by blast
qed

theorem TicketLock_lock_ticket_loop_witness:
  "TicketLock_lock
      [\<lparr>before_load = None, before_block = None, wake_arrives = True\<rparr>,
       \<lparr>before_load = Some \<lparr>current = 6, next_ticket = 9\<rparr>, before_block = None,
        wake_arrives = True\<rparr>,
       \<lparr>before_load = Some \<lparr>current = 7, next_ticket = 9\<rparr>, before_block = None,
        wake_arrives = False\<rparr>]
      \<lparr>current = 5, next_ticket = 7\<rparr>
     = Some (\<lparr>current = 7, next_ticket = 9\<rparr>,
         [FetchAddNext 7, LoadCurrent 5, WaitCurrent 5, LoadCurrent 6, WaitCurrent 6,
          LoadCurrent 7])
   \<and> current \<lparr>current = 7, next_ticket = 9\<rparr> = next_ticket \<lparr>current = 5, next_ticket = (7::32 word)\<rparr>
   \<and> current (interfere (before_load alone) (\<lparr>current = 4, next_ticket = 4\<rparr>\<lparr>next_ticket := 4 + 1\<rparr>))
       = next_ticket \<lparr>current = 4, next_ticket = (4::32 word)\<rparr>
   \<and> TicketLock_lock [alone] \<lparr>current = 4, next_ticket = 4\<rparr>
       = Some (\<lparr>current = 4, next_ticket = 5\<rparr>, [FetchAddNext 4, LoadCurrent 4])
   \<and> lock_loop 7 [alone] \<lparr>current = 7, next_ticket = 8\<rparr> [FetchAddNext 7]
       = Some (\<lparr>current = 7, next_ticket = 8\<rparr>, [FetchAddNext 7, LoadCurrent 7])
   \<and> lock_loop 7 [alone, alone] \<lparr>current = 5, next_ticket = 8\<rparr> [FetchAddNext 7] = None
   \<and> lock_loop 7
        [\<lparr>before_load = None, before_block = Some \<lparr>current = 6, next_ticket = 8\<rparr>,
          wake_arrives = False\<rparr>, alone]
        \<lparr>current = 5, next_ticket = 8\<rparr> [FetchAddNext 7]
       = lock_loop 7 [alone] \<lparr>current = 6, next_ticket = 8\<rparr>
           [FetchAddNext 7, LoadCurrent 5, WaitCurrent 5]
   \<and> TicketLock_lock
        (map (\<lambda>v. \<lparr>before_load = Some \<lparr>current = v, next_ticket = 9\<rparr>, before_block = None,
                    wake_arrives = True\<rparr>) [3, 4, 5, 6]
         @ \<lparr>before_load = Some \<lparr>current = 7, next_ticket = 9\<rparr>, before_block = None,
            wake_arrives = False\<rparr> # [])
        \<lparr>current = 3, next_ticket = 7\<rparr>
       = Some (\<lparr>current = 7, next_ticket = 9\<rparr>,
           [FetchAddNext 7, LoadCurrent 3, WaitCurrent 3, LoadCurrent 4, WaitCurrent 4,
            LoadCurrent 5, WaitCurrent 5, LoadCurrent 6, WaitCurrent 6, LoadCurrent 7])
   \<and> TicketLock_lock
        (map (\<lambda>v. \<lparr>before_load = Some \<lparr>current = v, next_ticket = 9\<rparr>, before_block = None,
                    wake_arrives = True\<rparr>) [3, 4]
         @ \<lparr>before_load = Some \<lparr>current = 5, next_ticket = 9\<rparr>, before_block = None,
            wake_arrives = False\<rparr> # [alone, alone])
        \<lparr>current = 3, next_ticket = 7\<rparr>
       = None"
proof -
  note t = TicketLock_lock_ticket_loop
  have e1: "TicketLock_lock
      [\<lparr>before_load = None, before_block = None, wake_arrives = True\<rparr>,
       \<lparr>before_load = Some \<lparr>current = 6, next_ticket = 9\<rparr>, before_block = None,
        wake_arrives = True\<rparr>,
       \<lparr>before_load = Some \<lparr>current = 7, next_ticket = 9\<rparr>, before_block = None,
        wake_arrives = False\<rparr>]
      \<lparr>current = 5, next_ticket = 7\<rparr>
     = Some (\<lparr>current = 7, next_ticket = 9\<rparr>,
         [FetchAddNext 7, LoadCurrent 5, WaitCurrent 5, LoadCurrent 6, WaitCurrent 6,
          LoadCurrent 7])"
    by (simp add: TicketLock_lock_def fetch_add_next_def interfere_def futex_wait_forever_def
          Let_def)
  have h2: "current (interfere (before_load alone) (\<lparr>current = 4, next_ticket = 4\<rparr>\<lparr>next_ticket := 4 + 1\<rparr>))
       = next_ticket \<lparr>current = 4, next_ticket = (4::32 word)\<rparr>"
    by (simp add: alone_def interfere_def)
  from t [THEN conjunct2, THEN conjunct1, rule_format, OF e1]
  have c1: "current \<lparr>current = 7, next_ticket = 9\<rparr>
              = next_ticket \<lparr>current = 5, next_ticket = (7::32 word)\<rparr>"
    by simp
  from t [where e = alone and l = "\<lparr>current = 4, next_ticket = 4\<rparr>" and sched = "[]",
      THEN conjunct2, THEN conjunct2, THEN conjunct1] h2
  have c2: "TicketLock_lock [alone] \<lparr>current = 4, next_ticket = 4\<rparr>
       = Some (\<lparr>current = 4, next_ticket = 5\<rparr>, [FetchAddNext 4, LoadCurrent 4])"
    by (simp add: alone_def interfere_def)
  from t [where e = alone and s = "\<lparr>current = 7, next_ticket = 8\<rparr>" and ticket = 7
        and sched = "[]" and ?tr0.0 = "[FetchAddNext 7]",
      THEN conjunct2, THEN conjunct2, THEN conjunct2, THEN conjunct1]
  have c4: "lock_loop 7 [alone] \<lparr>current = 7, next_ticket = 8\<rparr> [FetchAddNext 7]
       = Some (\<lparr>current = 7, next_ticket = 8\<rparr>, [FetchAddNext 7, LoadCurrent 7])"
    by (simp add: alone_def interfere_def)
  from t [where e = alone and s = "\<lparr>current = 5, next_ticket = 8\<rparr>" and ticket = 7
        and sched = "[alone]" and ?tr0.0 = "[FetchAddNext 7]",
      THEN conjunct2, THEN conjunct2, THEN conjunct2, THEN conjunct2, THEN conjunct1]
  have c5: "lock_loop 7 [alone, alone] \<lparr>current = 5, next_ticket = 8\<rparr> [FetchAddNext 7] = None"
    by (simp add: alone_def interfere_def)
  from t [where e = "\<lparr>before_load = None, before_block = Some \<lparr>current = 6, next_ticket = 8\<rparr>,
          wake_arrives = False\<rparr>" and s = "\<lparr>current = 5, next_ticket = 8\<rparr>" and ticket = 7
        and sched = "[alone]" and ?tr0.0 = "[FetchAddNext 7]",
      THEN conjunct2, THEN conjunct2, THEN conjunct2, THEN conjunct2, THEN conjunct2,
      THEN conjunct1]
  have c6: "lock_loop 7
        [\<lparr>before_load = None, before_block = Some \<lparr>current = 6, next_ticket = 8\<rparr>,
          wake_arrives = False\<rparr>, alone]
        \<lparr>current = 5, next_ticket = 8\<rparr> [FetchAddNext 7]
       = lock_loop 7 [alone] \<lparr>current = 6, next_ticket = 8\<rparr>
           [FetchAddNext 7, LoadCurrent 5, WaitCurrent 5]"
    by (simp add: interfere_def)
  from t [where l = "\<lparr>current = 3, next_ticket = 7\<rparr>" and ws = "[3, 4, 5, 6]" and m = 9
        and b = None and k = False and post = "[]",
      THEN conjunct2, THEN conjunct2, THEN conjunct2, THEN conjunct2, THEN conjunct2,
      THEN conjunct2, THEN conjunct1]
  have c7: "TicketLock_lock
        (map (\<lambda>v. \<lparr>before_load = Some \<lparr>current = v, next_ticket = 9\<rparr>, before_block = None,
                    wake_arrives = True\<rparr>) [3, 4, 5, 6]
         @ \<lparr>before_load = Some \<lparr>current = 7, next_ticket = 9\<rparr>, before_block = None,
            wake_arrives = False\<rparr> # [])
        \<lparr>current = 3, next_ticket = 7\<rparr>
       = Some (\<lparr>current = 7, next_ticket = 9\<rparr>,
           [FetchAddNext 7, LoadCurrent 3, WaitCurrent 3, LoadCurrent 4, WaitCurrent 4,
            LoadCurrent 5, WaitCurrent 5, LoadCurrent 6, WaitCurrent 6, LoadCurrent 7])"
    by simp
  from t [where l = "\<lparr>current = 3, next_ticket = 7\<rparr>" and ws = "[3, 4]" and m = 9
        and u = 5 and post = "[alone, alone]",
      THEN conjunct2, THEN conjunct2, THEN conjunct2, THEN conjunct2, THEN conjunct2,
      THEN conjunct2, THEN conjunct2, THEN conjunct1]
  have c8: "TicketLock_lock
        (map (\<lambda>v. \<lparr>before_load = Some \<lparr>current = v, next_ticket = 9\<rparr>, before_block = None,
                    wake_arrives = True\<rparr>) [3, 4]
         @ \<lparr>before_load = Some \<lparr>current = 5, next_ticket = 9\<rparr>, before_block = None,
            wake_arrives = False\<rparr> # [alone, alone])
        \<lparr>current = 3, next_ticket = 7\<rparr>
       = None"
    by simp
  from e1 c1 h2 c2 c4 c5 c6 c7 c8 show ?thesis
    by blast
qed

text \<open>
  C7. \<open>TicketLock::unlock()\<close> increments \<open>current\<close> and reads the incremented value: that
  is the first operation of the call. It wakes all waiters on \<open>current\<close> if and only if
  the value of \<open>next\<close> it then loads is greater, as an unsigned 32-bit number, than that
  new value, and issues no wake otherwise. When no other thread writes in between, the
  call leaves \<open>next\<close> as it was and \<open>current\<close> incremented by one.
\<close>

theorem TicketLock_unlock_wakes_iff_next_greater:
  "hd (snd (TicketLock_unlock w l)) = AddFetchCurrent (current l + 1)
   \<and> (NotifyAllCurrent \<in> set (snd (TicketLock_unlock w l)))
       = (next_ticket (interfere w (l\<lparr>current := current l + 1\<rparr>)) > current l + 1)
   \<and> TicketLock_unlock None l
       = (l\<lparr>current := current l + 1\<rparr>,
          [AddFetchCurrent (current l + 1), LoadNext (next_ticket l)]
          @ (if next_ticket l > current l + 1 then [NotifyAllCurrent] else []))"
  by (simp add: TicketLock_unlock_def add_fetch_current_def interfere_def Let_def)

theorem TicketLock_unlock_wakes_iff_next_greater_witness:
  "TicketLock_unlock None \<lparr>current = 4, next_ticket = 7\<rparr>
     = (\<lparr>current = 5, next_ticket = 7\<rparr>, [AddFetchCurrent 5, LoadNext 7, NotifyAllCurrent])
   \<and> TicketLock_unlock None \<lparr>current = 6, next_ticket = 7\<rparr>
     = (\<lparr>current = 7, next_ticket = 7\<rparr>, [AddFetchCurrent 7, LoadNext 7])"
  using TicketLock_unlock_wakes_iff_next_greater [of None "\<lparr>current = 4, next_ticket = 7\<rparr>"]
    TicketLock_unlock_wakes_iff_next_greater [of None "\<lparr>current = 6, next_ticket = 7\<rparr>"]
  by simp

subsection \<open>NoLock: the claim\<close>

text \<open>
  C9. For \<open>NoLock\<close>, \<open>try_lock(timeout)\<close> returns true for every timeout value and leaves
  the cursor alone, \<open>try_lock()\<close> returns true, \<open>lock()\<close> returns, and \<open>unlock()\<close>
  changes nothing. Every one of the four functions is total (it returns on every input)
  and issues no operation at all, so none of them blocks or fails.
\<close>

theorem NoLock_always_succeeds:
  "NoLock_try_lock timeout l = (True, timeout, l, [])
   \<and> NoLock_try_lock0 l = (True, l, [])
   \<and> NoLock_lock l = (l, [])
   \<and> NoLock_unlock l = (l, [])"
  by (simp add: NoLock_try_lock_def NoLock_try_lock0_def NoLock_lock_def NoLock_unlock_def)

subsection \<open>LockGuard: the claim\<close>

lemma LockGuard_dtor_owned:
  "isOwned g \<Longrightarrow> wrappedLock g = Some p \<Longrightarrow> objects s p = Some l \<Longrightarrow>
     unlock_of L l = Some l' \<Longrightarrow>
     LockGuard_dtor L g s
       = Returns (s\<lparr>objects := (objects s)(p \<mapsto> l'), calls := calls s @ [UnlockCalled p]\<rparr>)"
  by (simp add: LockGuard_dtor_def call_unlock_def)

lemma LockGuard_dtor_calls:
  "LockGuard_dtor L g s = Returns s' \<Longrightarrow>
     (isOwned g \<longrightarrow> (\<exists>p. wrappedLock g = Some p \<and> calls s' = calls s @ [UnlockCalled p]))
     \<and> (\<not> isOwned g \<longrightarrow> s' = s)"
  by (auto simp: LockGuard_dtor_def call_unlock_def split: option.splits)

lemma LockGuard_ctor_cases:
  "LockGuard_ctor L p s
     = (case objects s p of
          None \<Rightarrow> BadPointer
        | Some l \<Rightarrow>
            (case lock_of L l of
               None \<Rightarrow> NeverReturns
             | Some l' \<Rightarrow>
                 Returns (\<lparr>wrappedLock = Some p, isOwned = True\<rparr>,
                          s\<lparr>objects := (objects s)(p \<mapsto> l'),
                            calls := calls s @ [LockCalled p]\<rparr>)))"
  by (simp add: LockGuard_ctor_def call_lock_def Let_def split: option.splits)

text \<open>
  C3. For a \<open>LockGuard\<close> over any \<open>Lockable\<close> lock type: construction from a lock
  reference calls \<open>lock()\<close> on that lock and yields a guard that refers to it with the
  ownership flag set. The constructor returns exactly when that \<open>lock()\<close> call returns:
  a constructor that has returned has made the call, so the store holds the lock as the
  call left it and the call log has grown by that one \<open>lock()\<close>; when \<open>lock()\<close> never
  returns, neither does the constructor, and no guard comes to exist. Move construction
  gives the new guard the lock pointer and the ownership flag of the source and leaves
  the source with a null pointer and a cleared flag; destruction calls \<open>unlock()\<close> on
  the wrapped lock if and only if the ownership flag is set (a destructor that returns
  has appended exactly one \<open>unlock()\<close> call when the flag was set, and has left the
  store as it was otherwise). Hence after a move, destroying the source changes
  nothing, and destroying the new guard does what destroying the source before the move
  would have done: exactly one \<open>unlock()\<close> when the source owned the lock.
\<close>

theorem LockGuard_move_transfers_ownership:
  "(objects s p = Some l \<longrightarrow> lock_of L l = Some l' \<longrightarrow>
      LockGuard_ctor L p s
        = Returns (\<lparr>wrappedLock = Some p, isOwned = True\<rparr>,
                   s\<lparr>objects := (objects s)(p \<mapsto> l'), calls := calls s @ [LockCalled p]\<rparr>))
   \<and> LockGuard_move g
       = (\<lparr>wrappedLock = wrappedLock g, isOwned = isOwned g\<rparr>,
          \<lparr>wrappedLock = None, isOwned = False\<rparr>)
   \<and> (LockGuard_dtor L g s = Returns s' \<longrightarrow>
        (isOwned g \<longrightarrow> (\<exists>q. wrappedLock g = Some q \<and> calls s' = calls s @ [UnlockCalled q]))
        \<and> (\<not> isOwned g \<longrightarrow> s' = s))
   \<and> LockGuard_dtor L (snd (LockGuard_move g)) s = Returns s
   \<and> LockGuard_dtor L (fst (LockGuard_move g)) s = LockGuard_dtor L g s
   \<and> (isOwned g \<longrightarrow> wrappedLock g = Some p \<longrightarrow> objects s p = Some l \<longrightarrow>
        unlock_of L l = Some l' \<longrightarrow>
        LockGuard_dtor L (fst (LockGuard_move g)) s
          = Returns (s\<lparr>objects := (objects s)(p \<mapsto> l'),
                       calls := calls s @ [UnlockCalled p]\<rparr>))
   \<and> (LockGuard_ctor L p s = Returns (g1, s1) \<longrightarrow>
        g1 = \<lparr>wrappedLock = Some p, isOwned = True\<rparr>
        \<and> calls s1 = calls s @ [LockCalled p]
        \<and> (\<exists>l1 l2. objects s p = Some l1 \<and> lock_of L l1 = Some l2
                    \<and> s1 = s\<lparr>objects := (objects s)(p \<mapsto> l2),
                               calls := calls s @ [LockCalled p]\<rparr>))
   \<and> (objects s p = Some l \<longrightarrow> lock_of L l = None \<longrightarrow> LockGuard_ctor L p s = NeverReturns)
   \<and> (objects s p = None \<longrightarrow> LockGuard_ctor L p s = BadPointer)
   \<and> (isOwned g \<longrightarrow> wrappedLock g = Some p \<longrightarrow> objects s p = Some l \<longrightarrow>
        unlock_of L l = None \<longrightarrow> LockGuard_dtor L g s = NeverReturns)"
proof -
  have p1: "LockGuard_ctor L p s
        = Returns (\<lparr>wrappedLock = Some p, isOwned = True\<rparr>,
                   s\<lparr>objects := (objects s)(p \<mapsto> l'), calls := calls s @ [LockCalled p]\<rparr>)"
    if "objects s p = Some l" and "lock_of L l = Some l'"
    using that by (simp add: LockGuard_ctor_def call_lock_def)
  have p2: "LockGuard_move g
       = (\<lparr>wrappedLock = wrappedLock g, isOwned = isOwned g\<rparr>,
          \<lparr>wrappedLock = None, isOwned = False\<rparr>)"
    by (simp add: LockGuard_move_def)
  have p4: "LockGuard_dtor L (snd (LockGuard_move g)) s = Returns s"
    by (simp add: LockGuard_move_def LockGuard_dtor_def)
  have p5: "LockGuard_dtor L (fst (LockGuard_move g)) s = LockGuard_dtor L g s"
    by (simp add: LockGuard_move_def LockGuard_dtor_def)
  have p6: "LockGuard_dtor L (fst (LockGuard_move g)) s
          = Returns (s\<lparr>objects := (objects s)(p \<mapsto> l'),
                       calls := calls s @ [UnlockCalled p]\<rparr>)"
    if "isOwned g" and "wrappedLock g = Some p" and "objects s p = Some l"
      and "unlock_of L l = Some l'"
    using that by (simp add: p5 LockGuard_dtor_owned)
  have p7: "g1 = \<lparr>wrappedLock = Some p, isOwned = True\<rparr>
        \<and> calls s1 = calls s @ [LockCalled p]
        \<and> (\<exists>l1 l2. objects s p = Some l1 \<and> lock_of L l1 = Some l2
                    \<and> s1 = s\<lparr>objects := (objects s)(p \<mapsto> l2),
                               calls := calls s @ [LockCalled p]\<rparr>)"
    if "LockGuard_ctor L p s = Returns (g1, s1)"
    using that by (auto simp: LockGuard_ctor_cases split: option.splits)
  have p8: "LockGuard_ctor L p s = NeverReturns"
    if "objects s p = Some l" and "lock_of L l = None"
    using that by (simp add: LockGuard_ctor_cases)
  have p9: "LockGuard_ctor L p s = BadPointer" if "objects s p = None"
    using that by (simp add: LockGuard_ctor_cases)
  have p10: "LockGuard_dtor L g s = NeverReturns"
    if "isOwned g" and "wrappedLock g = Some p" and "objects s p = Some l"
      and "unlock_of L l = None"
    using that by (simp add: LockGuard_dtor_def call_unlock_def)
  from p1 p2 LockGuard_dtor_calls [of L g s s'] p4 p5 p6 p7 p8 p9 p10 show ?thesis
    by blast
qed

theorem LockGuard_move_transfers_ownership_witness:
  "LockGuard_ctor NoLock_Lockable 3 \<lparr>objects = [3 \<mapsto> NoLock], calls = []\<rparr>
     = Returns (\<lparr>wrappedLock = Some 3, isOwned = True\<rparr>,
                \<lparr>objects = [3 \<mapsto> NoLock], calls = [LockCalled 3]\<rparr>)
   \<and> LockGuard_move \<lparr>wrappedLock = Some 3, isOwned = True\<rparr>
       = (\<lparr>wrappedLock = Some 3, isOwned = True\<rparr>, \<lparr>wrappedLock = None, isOwned = False\<rparr>)
   \<and> LockGuard_dtor NoLock_Lockable \<lparr>wrappedLock = None, isOwned = False\<rparr>
        \<lparr>objects = [3 \<mapsto> NoLock], calls = [LockCalled 3]\<rparr>
       = Returns \<lparr>objects = [3 \<mapsto> NoLock], calls = [LockCalled 3]\<rparr>
   \<and> LockGuard_dtor NoLock_Lockable \<lparr>wrappedLock = Some 3, isOwned = True\<rparr>
        \<lparr>objects = [3 \<mapsto> NoLock], calls = [LockCalled 3]\<rparr>
       = Returns \<lparr>objects = [3 \<mapsto> NoLock], calls = [LockCalled 3, UnlockCalled 3]\<rparr>
   \<and> calls \<lparr>objects = [3 \<mapsto> NoLock], calls = [LockCalled 3]\<rparr>
       = calls \<lparr>objects = [3 \<mapsto> NoLock], calls = []\<rparr> @ [LockCalled 3]
   \<and> lock_of (FlagLock_Lockable 1000 []) \<lparr>flag = Locked\<rparr> = None
   \<and> LockGuard_ctor (FlagLock_Lockable 1000 []) 3
        \<lparr>objects = [3 \<mapsto> \<lparr>flag = Locked\<rparr>], calls = []\<rparr>
       = NeverReturns
   \<and> LockGuard_ctor (FlagLock_Lockable 1000 []) 3
        \<lparr>objects = [3 \<mapsto> \<lparr>flag = Unlocked\<rparr>], calls = []\<rparr>
       = Returns (\<lparr>wrappedLock = Some 3, isOwned = True\<rparr>,
                  \<lparr>objects = [3 \<mapsto> \<lparr>flag = Locked\<rparr>], calls = [LockCalled 3]\<rparr>)
   \<and> LockGuard_ctor NoLock_Lockable 4 \<lparr>objects = [3 \<mapsto> NoLock], calls = []\<rparr> = BadPointer"
proof -
  let ?s = "\<lparr>objects = [3 \<mapsto> NoLock], calls = []\<rparr>"
  let ?s1 = "\<lparr>objects = [3 \<mapsto> NoLock], calls = [LockCalled 3]\<rparr>"
  let ?g = "\<lparr>wrappedLock = Some 3, isOwned = True\<rparr>"
  let ?F = "FlagLock_Lockable 1000 []"
  let ?f = "\<lparr>objects = [3 \<mapsto> \<lparr>flag = Locked\<rparr>], calls = []\<rparr>"
  let ?u = "\<lparr>objects = [3 \<mapsto> \<lparr>flag = Unlocked\<rparr>], calls = []\<rparr>"
  have h1: "objects ?s 3 = Some NoLock" and h2: "lock_of NoLock_Lockable NoLock = Some NoLock"
    and h3: "objects ?s1 3 = Some NoLock" and h4: "unlock_of NoLock_Lockable NoLock = Some NoLock"
    and h5: "isOwned ?g" and h6: "wrappedLock ?g = Some 3"
    and h7: "objects ?f 3 = Some \<lparr>flag = Locked\<rparr>" and h8: "objects ?s 4 = None"
    and h9: "objects ?u 3 = Some \<lparr>flag = Unlocked\<rparr>"
    by (simp_all add: NoLock_Lockable_def NoLock_lock_def NoLock_unlock_def)
  have k1: "lock_of ?F \<lparr>flag = Locked\<rparr> = None"
    by (simp add: FlagLock_Lockable_def FlagLock_lock_def try_lock_slow)
  have k2: "lock_of ?F \<lparr>flag = Unlocked\<rparr> = Some \<lparr>flag = Locked\<rparr>"
    by (simp add: FlagLock_Lockable_def FlagLock_lock_def try_lock_fast)
  note t = LockGuard_move_transfers_ownership
  from t [where s = ?s and p = 3 and l = NoLock and l' = NoLock and L = NoLock_Lockable,
      THEN conjunct1, rule_format, OF h1 h2]
  have c1: "LockGuard_ctor NoLock_Lockable 3 ?s = Returns (?g, ?s1)"
    by simp
  from t [where g = ?g, THEN conjunct2, THEN conjunct1]
  have c2: "LockGuard_move ?g = (?g, \<lparr>wrappedLock = None, isOwned = False\<rparr>)"
    by simp
  from t [where g = ?g and s = ?s1 and L = NoLock_Lockable,
      THEN conjunct2, THEN conjunct2, THEN conjunct2, THEN conjunct1]
  have c3: "LockGuard_dtor NoLock_Lockable \<lparr>wrappedLock = None, isOwned = False\<rparr> ?s1 = Returns ?s1"
    by (simp add: c2)
  from t [where g = ?g and s = ?s1 and L = NoLock_Lockable and p = 3 and l = NoLock
        and l' = NoLock,
      THEN conjunct2, THEN conjunct2, THEN conjunct2, THEN conjunct2, THEN conjunct2,
      THEN conjunct1, rule_format, OF h5 h6 h3 h4]
  have c4: "LockGuard_dtor NoLock_Lockable ?g ?s1
              = Returns \<lparr>objects = [3 \<mapsto> NoLock], calls = [LockCalled 3, UnlockCalled 3]\<rparr>"
    by (simp add: c2)
  from t [where s = ?s and p = 3 and L = NoLock_Lockable and ?g1.0 = ?g and ?s1.0 = ?s1,
      THEN conjunct2, THEN conjunct2, THEN conjunct2, THEN conjunct2, THEN conjunct2,
      THEN conjunct2, THEN conjunct1, rule_format, OF c1]
  have c5: "calls ?s1 = calls ?s @ [LockCalled 3]"
    by simp
  from t [where s = ?f and p = 3 and L = ?F and l = "\<lparr>flag = Locked\<rparr>",
      THEN conjunct2, THEN conjunct2, THEN conjunct2, THEN conjunct2, THEN conjunct2,
      THEN conjunct2, THEN conjunct2, THEN conjunct1, rule_format, OF h7 k1]
  have c6: "LockGuard_ctor ?F 3 ?f = NeverReturns" .
  from t [where s = ?u and p = 3 and L = ?F and l = "\<lparr>flag = Unlocked\<rparr>"
        and l' = "\<lparr>flag = Locked\<rparr>",
      THEN conjunct1, rule_format, OF h9 k2]
  have c7: "LockGuard_ctor ?F 3 ?u
              = Returns (?g, \<lparr>objects = [3 \<mapsto> \<lparr>flag = Locked\<rparr>], calls = [LockCalled 3]\<rparr>)"
    by simp
  from t [where s = ?s and p = 4 and L = NoLock_Lockable,
      THEN conjunct2, THEN conjunct2, THEN conjunct2, THEN conjunct2, THEN conjunct2,
      THEN conjunct2, THEN conjunct2, THEN conjunct2, THEN conjunct1, rule_format, OF h8]
  have c8: "LockGuard_ctor NoLock_Lockable 4 ?s = BadPointer" .
  from c1 c2 c3 c4 c5 k1 c6 c7 c8 show ?thesis
    by simp
qed

end
